theory Spec2Isabelle
  imports Main
begin

section \<open>Values, objects and the JavaScript Map\<close>

text \<open>
  Embedding of \<^verbatim>\<open>src/addon/debounce-task.ts\<close>. Objects, functions, Map objects and
  run-loop timers have reference identity, so each is a number; the state holds what
  they point to.
\<close>

type_synonym ref = nat
type_synonym fnref = nat
type_synonym mapref = nat
type_synonym timer = nat

text \<open>
  The values that reach the module at run time (TypeScript's types are erased):
  \<^verbatim>\<open>undefined\<close>, numbers, strings and functions.
\<close>

datatype jsval = Undefined | Num int | Str string | Fn fnref

fun is_string :: "jsval \<Rightarrow> bool" where
  "is_string (Str _) = True"
| "is_string _ = False"

fun is_function :: "jsval \<Rightarrow> bool" where
  "is_function (Fn _) = True"
| "is_function _ = False"

text \<open>
  An Ember object: \<open>props o k\<close> is the value of the expression \<^verbatim>\<open>o[k]\<close> and
  \<open>isDestroyed o\<close> its \<^verbatim>\<open>isDestroyed\<close> flag.
\<close>

record ember_obj =
  props :: "jsval \<Rightarrow> jsval"
  isDestroyed :: bool

text \<open>
  The arrow function of lines 89-96 is a closure over \<^verbatim>\<open>pendingDebounces\<close>,
  \<^verbatim>\<open>nameOrFunction\<close> and \<^verbatim>\<open>obj\<close>. Every evaluation of the arrow expression makes a
  new function object; \<open>c_id\<close> is that object's identity.
\<close>

record closure =
  c_id :: nat
  c_pendingDebounces :: mapref
  c_nameOrFunction :: jsval
  c_obj :: ref

text \<open>The type \<^verbatim>\<open>PendingDebounce\<close> of lines 7-12.\<close>

record pending_debounce =
  debouncedTask :: closure
  cancelId :: timer

text \<open>
  A \<^verbatim>\<open>Map<string | Function, PendingDebounce>\<close> object (line 14). Its entries are kept
  in insertion order, as \<^verbatim>\<open>values()\<close> iterates them. Like every JavaScript object it
  also has ordinary own properties, \<open>own\<close>, which are not entries.
\<close>

record js_map =
  entries :: "(jsval \<times> pending_debounce) list"
  own :: "string \<rightharpoonup> jsval"

definition new_Map :: js_map where
  "new_Map = \<lparr>entries = [], own = Map.empty\<rparr>"

fun set_entry :: "jsval \<Rightarrow> pending_debounce \<Rightarrow> (jsval \<times> pending_debounce) list
    \<Rightarrow> (jsval \<times> pending_debounce) list" where
  "set_entry k v [] = [(k, v)]"
| "set_entry k v (e # es) = (if fst e = k then (k, v) # es else e # set_entry k v es)"

definition Map_get :: "js_map \<Rightarrow> jsval \<Rightarrow> pending_debounce option" where
  "Map_get m k = map_of (entries m) k"

definition Map_has :: "js_map \<Rightarrow> jsval \<Rightarrow> bool" where
  "Map_has m k = (k \<in> set (map fst (entries m)))"

definition Map_set :: "js_map \<Rightarrow> jsval \<Rightarrow> pending_debounce \<Rightarrow> js_map" where
  "Map_set m k v = m\<lparr>entries := set_entry k v (entries m)\<rparr>"

definition Map_delete :: "js_map \<Rightarrow> jsval \<Rightarrow> js_map" where
  "Map_delete m k = m\<lparr>entries := filter (\<lambda>e. fst e \<noteq> k) (entries m)\<rparr>"

definition Map_values :: "js_map \<Rightarrow> pending_debounce list" where
  "Map_values m = map snd (entries m)"

text \<open>
  The expression \<^verbatim>\<open>delete m[p]\<close> on a Map object \<open>m\<close>: the \<^verbatim>\<open>delete\<close> operator removes
  the own property named \<open>p\<close>. It is not the method \<^verbatim>\<open>m.delete(k)\<close>.
\<close>

definition delete_property :: "js_map \<Rightarrow> string \<Rightarrow> js_map" where
  "delete_property m p = m\<lparr>own := (own m)(p := None)\<rparr>"

section \<open>The state of the module and of its collaborators\<close>

datatype assertion = NotStringOrFunction | NotAFunction | DestroyedObject

datatype error = AssertionFailed assertion | TypeError

text \<open>The function returned by \<^verbatim>\<open>getDebouncesDisposable\<close>: a closure over \<^verbatim>\<open>debounces\<close>.\<close>

datatype disposable = DebouncesDisposable "mapref option"

record timer_item =
  t_id :: timer
  t_target :: ref
  t_method :: closure
  t_args :: "jsval list"

record call =
  callee :: fnref
  this_arg :: ref
  arguments :: "jsval list"

text \<open>
  \<open>registeredDebounces\<close> is the module's WeakMap (line 23) and \<open>map_store\<close> holds the
  Map objects it points to. \<open>global_name\<close> is the global variable \<^verbatim>\<open>name\<close> that line 90
  reads: no binding of that identifier exists in the module, so it is the host's
  \<^verbatim>\<open>window.name\<close>, a string. \<open>timers\<close> and \<open>next_timer\<close> are the run loop,
  \<open>disposables\<close> the registrations made through \<^verbatim>\<open>registerDisposable\<close>, and \<open>calls\<close> the
  task invocations made so far.
\<close>

record state =
  heap :: "ref \<Rightarrow> ember_obj"
  global_name :: string
  map_store :: "mapref \<Rightarrow> js_map"
  next_map :: mapref
  next_closure :: nat
  registeredDebounces :: "ref \<rightharpoonup> mapref"
  disposables :: "(ref \<times> disposable) list"
  timers :: "timer_item list"
  next_timer :: timer
  calls :: "call list"

definition init :: "(ref \<Rightarrow> ember_obj) \<Rightarrow> string \<Rightarrow> state" where
  "init h g = \<lparr>heap = h, global_name = g, map_store = (\<lambda>_. new_Map), next_map = 0,
     next_closure = 0, registeredDebounces = Map.empty, disposables = [], timers = [],
     next_timer = 0, calls = []\<rparr>"

subsection \<open>The run loop\<close>

text \<open>
  Modelled from the spec: the Scheduler collaborator, \<^verbatim>\<open>debounce\<close> and \<^verbatim>\<open>cancel\<close> of
  \<^verbatim>\<open>@ember/runloop\<close> (line 2), whose code is not in the sources. A request
  \<^verbatim>\<open>debounce(target, method, ...args, wait)\<close> replaces the pending timer of the same
  target and method, if there is one, keeps the arguments of this request and returns a
  new handle (the comment on line 101); \<^verbatim>\<open>cancel(handle)\<close> drops the timer with that
  handle and is harmless when there is none. The last element of \<open>debounceArgs\<close> is
  the wait; time is not modelled, a pending timer fires when \<open>fire\<close> is applied to it.
\<close>

definition debounce :: "ref \<Rightarrow> closure \<Rightarrow> jsval list \<Rightarrow> state \<Rightarrow> timer \<times> state" where
  "debounce target method debounceArgs s =
     (next_timer s,
      s\<lparr>timers := filter (\<lambda>t. \<not> (t_target t = target \<and> t_method t = method)) (timers s)
                   @ [\<lparr>t_id = next_timer s, t_target = target, t_method = method,
                       t_args = butlast debounceArgs\<rparr>],
        next_timer := Suc (next_timer s)\<rparr>)"

definition cancel :: "timer \<Rightarrow> state \<Rightarrow> error option \<times> state" where
  "cancel cid s = (None, s\<lparr>timers := filter (\<lambda>t. t_id t \<noteq> cid) (timers s)\<rparr>)"

subsection \<open>The lifecycle collaborator\<close>

text \<open>
  Modelled from the spec: \<^verbatim>\<open>registerDisposable\<close> of \<^verbatim>\<open>./utils/disposable\<close> (line 4),
  which is not in the sources. It registers an action to run at the teardown of the
  owner; registrations are independent of one another.
\<close>

definition registerDisposable :: "ref \<Rightarrow> disposable \<Rightarrow> state \<Rightarrow> state" where
  "registerDisposable obj d s = s\<lparr>disposables := disposables s @ [(obj, d)]\<rparr>"

section \<open>The functions of the module\<close>

subsection \<open>getDebouncesDisposable\<close>

text \<open>
  Lines 157-167. \<open>cancel_all\<close> is the \<^verbatim>\<open>for ... of debounces.values()\<close> loop, over any
  implementation \<open>C\<close> of the run loop's \<^verbatim>\<open>cancel\<close>; an error raised by one call ends
  the loop.
\<close>

definition getDebouncesDisposable :: "mapref option \<Rightarrow> disposable" where
  "getDebouncesDisposable debounces = DebouncesDisposable debounces"

fun cancel_all :: "(timer \<Rightarrow> state \<Rightarrow> error option \<times> state) \<Rightarrow> pending_debounce list
    \<Rightarrow> state \<Rightarrow> error option \<times> state" where
  "cancel_all C [] s = (None, s)"
| "cancel_all C (p # ps) s =
     (case C (cancelId p) s of
        (Some e, s') \<Rightarrow> (Some e, s')
      | (None, s') \<Rightarrow> cancel_all C ps s')"

fun run_disposable :: "disposable \<Rightarrow> state \<Rightarrow> error option \<times> state" where
  "run_disposable (DebouncesDisposable None) s = (None, s)"
| "run_disposable (DebouncesDisposable (Some debounces)) s =
     cancel_all cancel (Map_values (map_store s debounces)) s"

subsection \<open>debounceTask\<close>

text \<open>
  Lines 89-96, the body of the arrow function \<open>c\<close> applied to \<open>args\<close>. Line 90 is
  \<^verbatim>\<open>delete pendingDebounces[name]\<close>. A task is an opaque function: calling it is
  recorded in \<open>calls\<close>. Calling a member that is not a function is a TypeError.
\<close>

definition run_debouncedTask :: "closure \<Rightarrow> jsval list \<Rightarrow> state \<Rightarrow> error option \<times> state" where
  "run_debouncedTask c args s =
     (let pendingDebounces = c_pendingDebounces c;
          s1 = s\<lparr>map_store := (map_store s)
                 (pendingDebounces :=
                    delete_property (map_store s pendingDebounces) (global_name s))\<rparr>
      in case c_nameOrFunction c of
           Fn f \<Rightarrow>
             (None, s1\<lparr>calls := calls s1 @ [\<lparr>callee = f, this_arg = c_obj c, arguments = args\<rparr>]\<rparr>)
         | k \<Rightarrow>
             (case props (heap s1 (c_obj c)) k of
                Fn f \<Rightarrow>
                  (None,
                   s1\<lparr>calls := calls s1 @ [\<lparr>callee = f, this_arg = c_obj c, arguments = args\<rparr>]\<rparr>)
              | _ \<Rightarrow> (Some TypeError, s1)))"

text \<open>
  Lines 60-105. The three \<^verbatim>\<open>assert\<close> calls raise when their condition is false (the
  behaviour of \<^verbatim>\<open>@ember/debug\<close> where assertions are enabled). The result is the error
  raised, if any, and the state at that moment.
\<close>

definition debounceTask :: "ref \<Rightarrow> jsval \<Rightarrow> jsval list \<Rightarrow> state \<Rightarrow> error option \<times> state" where
  "debounceTask obj nameOrFunction debounceArgs s =
     (if \<not> (is_string nameOrFunction \<or> is_function nameOrFunction)
        then (Some (AssertionFailed NotStringOrFunction), s)
      else if \<not> (is_function nameOrFunction \<or> is_function (props (heap s obj) nameOrFunction))
        then (Some (AssertionFailed NotAFunction), s)
      else if isDestroyed (heap s obj)
        then (Some (AssertionFailed DestroyedObject), s)
      else
        let (pendingDebounces, s1) =
              (case registeredDebounces s obj of
                 None \<Rightarrow>
                   let m = next_map s
                   in (m, registerDisposable obj (getDebouncesDisposable (Some m))
                            (s\<lparr>map_store := (map_store s)(m := new_Map),
                               next_map := Suc m,
                               registeredDebounces := (registeredDebounces s)(obj \<mapsto> m)\<rparr>))
               | Some m \<Rightarrow> (m, s));
            (task, s2) =
              (case Map_get (map_store s1 pendingDebounces) nameOrFunction of
                 None \<Rightarrow>
                   (\<lparr>c_id = next_closure s1, c_pendingDebounces = pendingDebounces,
                      c_nameOrFunction = nameOrFunction, c_obj = obj\<rparr>,
                    s1\<lparr>next_closure := Suc (next_closure s1)\<rparr>)
               | Some pendingDebounce \<Rightarrow> (debouncedTask pendingDebounce, s1));
            (cid, s3) = debounce obj task debounceArgs s2
        in (None,
            s3\<lparr>map_store := (map_store s3)
                 (pendingDebounces :=
                    Map_set (map_store s3 pendingDebounces) nameOrFunction
                      \<lparr>debouncedTask = task, cancelId = cid\<rparr>)\<rparr>))"

subsection \<open>cancelDebounce\<close>

text \<open>
  Lines 141-155, over any implementation \<open>C\<close> of the run loop's \<^verbatim>\<open>cancel\<close>, and then
  with the run loop of this development.
\<close>

definition cancelDebounce_with :: "(timer \<Rightarrow> state \<Rightarrow> error option \<times> state) \<Rightarrow> ref \<Rightarrow> jsval
    \<Rightarrow> state \<Rightarrow> error option \<times> state" where
  "cancelDebounce_with C obj nameOrFunction s =
     (case registeredDebounces s obj of
        None \<Rightarrow> (None, s)
      | Some pendingDebounces \<Rightarrow>
          if \<not> Map_has (map_store s pendingDebounces) nameOrFunction then (None, s)
          else
            (case Map_get (map_store s pendingDebounces) nameOrFunction of
               None \<Rightarrow> (Some TypeError, s)
             | Some p \<Rightarrow>
                 C (cancelId p)
                   (s\<lparr>map_store := (map_store s)
                        (pendingDebounces :=
                           Map_delete (map_store s pendingDebounces) nameOrFunction)\<rparr>)))"

definition cancelDebounce :: "ref \<Rightarrow> jsval \<Rightarrow> state \<Rightarrow> error option \<times> state" where
  "cancelDebounce obj nameOrFunction s = cancelDebounce_with cancel obj nameOrFunction s"

section \<open>Events\<close>

text \<open>
  The run loop fires the pending timer with handle \<open>tid\<close>: the timer leaves the run
  loop and its method runs on the arguments kept for it.
\<close>

definition fire :: "timer \<Rightarrow> state \<Rightarrow> error option \<times> state" where
  "fire tid s =
     (case find (\<lambda>t. t_id t = tid) (timers s) of
        None \<Rightarrow> (None, s)
      | Some t \<Rightarrow>
          run_debouncedTask (t_method t) (t_args t)
            (s\<lparr>timers := filter (\<lambda>t. t_id t \<noteq> tid) (timers s)\<rparr>))"

text \<open>
  Teardown of an owner: the lifecycle collaborator runs the actions registered for it,
  in order of registration.
\<close>

fun run_disposables :: "disposable list \<Rightarrow> state \<Rightarrow> state" where
  "run_disposables [] s = s"
| "run_disposables (d # ds) s = run_disposables ds (snd (run_disposable d s))"

definition teardown :: "ref \<Rightarrow> state \<Rightarrow> state" where
  "teardown obj s =
     run_disposables (map snd (filter (\<lambda>r. fst r = obj) (disposables s))) s"

text \<open>
  What can happen to the module: the two public operations, a timer firing, the
  teardown of an owner, and the program around it assigning a member of an object or
  marking it destroyed.
\<close>

datatype event =
    Schedule ref jsval "jsval list"
  | Cancel ref jsval
  | Fire timer
  | Teardown ref
  | Assign ref jsval jsval
  | Destroy ref

fun step :: "event \<Rightarrow> state \<Rightarrow> state" where
  "step (Schedule obj k dargs) s = snd (debounceTask obj k dargs s)"
| "step (Cancel obj k) s = snd (cancelDebounce obj k s)"
| "step (Fire tid) s = snd (fire tid s)"
| "step (Teardown obj) s = teardown obj s"
| "step (Assign obj k v) s =
     s\<lparr>heap := (heap s)(obj := (heap s obj)\<lparr>props := (props (heap s obj))(k := v)\<rparr>)\<rparr>"
| "step (Destroy obj) s =
     s\<lparr>heap := (heap s)(obj := (heap s obj)\<lparr>isDestroyed := True\<rparr>)\<rparr>"

fun run :: "event list \<Rightarrow> state \<Rightarrow> state" where
  "run [] s = s"
| "run (e # es) s = run es (step e s)"

section \<open>Notions used in the statements\<close>

text \<open>
  The Pending Debounce of an owner and a task identity: the entry under that identity
  in the map that \<open>registeredDebounces\<close> holds for the owner, if both exist.
\<close>

definition pending_entry :: "ref \<Rightarrow> jsval \<Rightarrow> state \<Rightarrow> pending_debounce option" where
  "pending_entry obj k s =
     (case registeredDebounces s obj of None \<Rightarrow> None | Some m \<Rightarrow> Map_get (map_store s m) k)"

text \<open>The conditions of the three asserts of \<open>debounceTask\<close>, lines 65-76.\<close>

definition valid_call :: "ref \<Rightarrow> jsval \<Rightarrow> state \<Rightarrow> bool" where
  "valid_call obj k s \<longleftrightarrow>
     (is_function k \<or> is_string k \<and> is_function (props (heap s obj) k)) \<and>
     \<not> isDestroyed (heap s obj)"

text \<open>
  The map and the arrow function that lines 78-99 of \<open>debounceTask\<close> arrive at, in terms
  of the state before the call.
\<close>

definition pending_map :: "ref \<Rightarrow> state \<Rightarrow> mapref" where
  "pending_map obj s = (case registeredDebounces s obj of None \<Rightarrow> next_map s | Some m \<Rightarrow> m)"

definition pending_task :: "ref \<Rightarrow> jsval \<Rightarrow> state \<Rightarrow> closure" where
  "pending_task obj k s =
     (case pending_entry obj k s of
        None \<Rightarrow> \<lparr>c_id = next_closure s, c_pendingDebounces = pending_map obj s,
                  c_nameOrFunction = k, c_obj = obj\<rparr>
      | Some p \<Rightarrow> debouncedTask p)"

text \<open>
  The function a task identity stands for on an object: the identity itself when it is
  a function, the member it names otherwise.
\<close>

definition task_of :: "jsval \<Rightarrow> ember_obj \<Rightarrow> jsval" where
  "task_of k ob = (if is_function k then k else props ob k)"

text \<open>
  The pending timers of the run loop whose method was made for an owner and a task
  identity.
\<close>

definition timers_for :: "ref \<Rightarrow> jsval \<Rightarrow> state \<Rightarrow> timer_item list" where
  "timers_for obj k s =
     filter (\<lambda>t. c_obj (t_method t) = obj \<and> c_nameOrFunction (t_method t) = k) (timers s)"

subsection \<open>Well-formed states\<close>

text \<open>
  Map objects are allocated below \<open>next_map\<close> and no two owners share one. An entry
  stored under identity \<open>k\<close> in map \<open>m\<close> holds an arrow function made for \<open>k\<close> and \<open>m\<close>
  and for the owner of \<open>m\<close>, older than \<open>next_closure\<close>, and a handle older than
  \<open>next_timer\<close>. A pending timer has a handle of its own, and its method and handle are
  the ones stored in the entry its method was made for. Keys of a map are distinct. An
  owner has a disposable registered exactly when it has a map, and that disposable is
  the one over its map.
\<close>

definition reg_ok :: "state \<Rightarrow> bool" where
  "reg_ok s \<longleftrightarrow>
     (\<forall>obj m. registeredDebounces s obj = Some m \<longrightarrow> m < next_map s) \<and>
     (\<forall>o1 o2 m. registeredDebounces s o1 = Some m \<longrightarrow> registeredDebounces s o2 = Some m
        \<longrightarrow> o1 = o2)"

definition entries_ok :: "state \<Rightarrow> bool" where
  "entries_ok s \<longleftrightarrow>
     (\<forall>m k p. Map_get (map_store s m) k = Some p \<longrightarrow>
        c_id (debouncedTask p) < next_closure s \<and> cancelId p < next_timer s \<and>
        c_pendingDebounces (debouncedTask p) = m \<and> c_nameOrFunction (debouncedTask p) = k \<and>
        registeredDebounces s (c_obj (debouncedTask p)) = Some m)"

definition timers_ok :: "state \<Rightarrow> bool" where
  "timers_ok s \<longleftrightarrow>
     distinct (map t_id (timers s)) \<and>
     (\<forall>t \<in> set (timers s). t_id t < next_timer s \<and> t_target t = c_obj (t_method t) \<and>
        Map_get (map_store s (c_pendingDebounces (t_method t))) (c_nameOrFunction (t_method t))
          = Some \<lparr>debouncedTask = t_method t, cancelId = t_id t\<rparr>)"

definition keys_ok :: "state \<Rightarrow> bool" where
  "keys_ok s \<longleftrightarrow> (\<forall>m. distinct (map fst (entries (map_store s m))))"

definition disp_ok :: "state \<Rightarrow> bool" where
  "disp_ok s \<longleftrightarrow>
     (\<forall>obj. map snd (filter (\<lambda>r. fst r = obj) (disposables s)) =
        (case registeredDebounces s obj of
           None \<Rightarrow> []
         | Some m \<Rightarrow> [getDebouncesDisposable (Some m)]))"

definition wf_state :: "state \<Rightarrow> bool" where
  "wf_state s \<longleftrightarrow> reg_ok s \<and> entries_ok s \<and> timers_ok s \<and> keys_ok s \<and> disp_ok s"

section \<open>A concrete run\<close>

text \<open>
  Every object of \<open>h0\<close> has one method, \<^verbatim>\<open>logMe\<close>, the function 7, and is alive. In
  \<open>es0\<close> object 1 debounces \<^verbatim>\<open>logMe\<close> once, with argument 1 and a wait of 300; \<open>p0\<close> is
  the entry this stores.
\<close>

definition h0 :: "ref \<Rightarrow> ember_obj" where
  "h0 = (\<lambda>_. \<lparr>props = (\<lambda>k. if k = Str ''logMe'' then Fn 7 else Undefined),
               isDestroyed = False\<rparr>)"

definition p0 :: pending_debounce where
  "p0 = \<lparr>debouncedTask = \<lparr>c_id = 0, c_pendingDebounces = 0,
                c_nameOrFunction = Str ''logMe'', c_obj = 1\<rparr>, cancelId = 0\<rparr>"

definition es0 :: "event list" where
  "es0 = [Schedule 1 (Str ''logMe'') [Num 1, Num 300]]"

lemmas model_defs = init_def h0_def debounceTask_def debounce_def cancel_def fire_def
  run_debouncedTask_def cancelDebounce_def cancelDebounce_with_def registerDisposable_def
  getDebouncesDisposable_def Map_get_def Map_set_def Map_has_def Map_delete_def Map_values_def
  new_Map_def delete_property_def teardown_def

section \<open>The Map operations\<close>

lemma Map_has_get: "Map_has m k \<longleftrightarrow> Map_get m k \<noteq> None"
  by (simp add: Map_has_def Map_get_def map_of_eq_None_iff)

lemma Map_get_delete_same: "Map_get (Map_delete m k) k = None"
  by (auto simp: Map_get_def Map_delete_def map_of_eq_None_iff)

lemma map_of_set_entry: "map_of (set_entry k v es) k' = (if k' = k then Some v else map_of es k')"
  by (induction es) auto

lemma Map_get_set: "Map_get (Map_set m k v) k' = (if k' = k then Some v else Map_get m k')"
  by (simp add: Map_get_def Map_set_def map_of_set_entry)

lemma fst_set_entry: "fst ` set (set_entry k v es) = insert k (fst ` set es)"
  by (induction es) auto

lemma distinct_set_entry: "distinct (map fst es) \<Longrightarrow> distinct (map fst (set_entry k v es))"
  by (induction es) (auto simp: fst_set_entry)

lemma map_of_filter_key:
  "map_of (filter (\<lambda>e. fst e \<noteq> k) es) k' = (if k' = k then None else map_of es k')"
  by (induction es) auto

lemma Map_get_delete: "Map_get (Map_delete m k) k' = (if k' = k then None else Map_get m k')"
  by (simp add: Map_get_def Map_delete_def map_of_filter_key)

lemma Map_get_new [simp]: "Map_get new_Map k = None"
  by (simp add: Map_get_def new_Map_def)

lemma Map_get_delete_property [simp]: "Map_get (delete_property m p) k = Map_get m k"
  by (simp add: Map_get_def delete_property_def)

lemma entries_delete_property [simp]: "entries (delete_property m p) = entries m"
  by (simp add: delete_property_def)

lemma distinct_Map_delete:
  "distinct (map fst (entries m)) \<Longrightarrow> distinct (map fst (entries (Map_delete m k)))"
  by (simp add: Map_delete_def distinct_map_filter)

section \<open>Lists with distinct keys\<close>

lemma filter_empty_other:
  assumes "x \<notin> set xs" and "f x \<notin> f ` set xs" and "\<forall>y \<in> set xs. P y \<longrightarrow> f y = f x"
  shows "filter P xs = []"
  using assms by (induction xs) auto

lemma filter_singleton:
  assumes "distinct (map f xs)" and "x \<in> set xs" and "P x"
    and "\<forall>y \<in> set xs. P y \<longrightarrow> f y = f x"
  shows "filter P xs = [x]"
  using assms
proof (induction xs)
  case Nil
  then show ?case by simp
next
  case (Cons a xs)
  show ?case
  proof (cases "a = x")
    case True
    from Cons.prems(1) True have "f x \<notin> f ` set xs" by simp
    moreover from this have "x \<notin> set xs" by blast
    moreover from Cons.prems(4) have "\<forall>y \<in> set xs. P y \<longrightarrow> f y = f x" by simp
    ultimately have "filter P xs = []" by (intro filter_empty_other [where f = f and x = x])
    with True Cons.prems(3) show ?thesis by simp
  next
    case False
    with Cons.prems(2) have x: "x \<in> set xs" by simp
    from Cons.prems(1) have "f a \<notin> f ` set xs" by simp
    with x have "f a \<noteq> f x" by blast
    moreover from Cons.prems(4) have "P a \<longrightarrow> f a = f x" by simp
    ultimately have na: "\<not> P a" by blast
    from Cons.prems(1) have d: "distinct (map f xs)" by simp
    from Cons.prems(4) have "\<forall>y \<in> set xs. P y \<longrightarrow> f y = f x" by simp
    from Cons.IH [OF d x Cons.prems(3) this] have "filter P xs = [x]" .
    with na show ?thesis by simp
  qed
qed

lemma filter_at_most_one:
  assumes "distinct (map f xs)" and "\<forall>y \<in> set xs. P y \<longrightarrow> f y = a"
  shows "length (filter P xs) \<le> 1"
proof (cases "filter P xs")
  case Nil
  then show ?thesis by simp
next
  case (Cons x ys)
  then have "x \<in> set (filter P xs)" by simp
  then have x: "x \<in> set xs" "P x" by simp_all
  with assms(2) have "f x = a" by blast
  with assms(2) have "\<forall>y \<in> set xs. P y \<longrightarrow> f y = f x" by simp
  with assms(1) x have "filter P xs = [x]" by (rule filter_singleton)
  then show ?thesis by simp
qed

lemma find_distinct:
  "distinct (map f xs) \<Longrightarrow> x \<in> set xs \<Longrightarrow> find (\<lambda>y. f y = f x) xs = Some x"
proof (induction xs)
  case Nil
  then show ?case by simp
next
  case (Cons a xs)
  show ?case
  proof (cases "a = x")
    case True
    then show ?thesis by simp
  next
    case False
    with Cons.prems have x: "x \<in> set xs" by simp
    from Cons.prems(1) have "f a \<notin> f ` set xs" by simp
    with x have "f a \<noteq> f x" by blast
    with Cons.IH [OF _ x] Cons.prems(1) show ?thesis by simp
  qed
qed

lemma distinct_key_count:
  "distinct (map fst es) \<Longrightarrow> length (filter (\<lambda>e. fst e = k) es) \<le> 1"
  by (rule filter_at_most_one [where f = fst and a = k]) auto

lemma find_None_filter: "find P xs = None \<Longrightarrow> filter (\<lambda>x. \<not> P x) xs = xs"
  by (induction xs) (auto split: if_splits)

section \<open>cancelDebounce where nothing is pending\<close>

text \<open>
  C4. If the owner has no map in \<open>registeredDebounces\<close>, or its map has no entry for the
  task identity, \<open>cancelDebounce\<close> returns normally and the state is the one it started
  from.
\<close>

theorem cancelDebounce_absent_noop:
  assumes "registeredDebounces s obj = None \<or>
    (\<exists>m. registeredDebounces s obj = Some m \<and> Map_get (map_store s m) k = None)"
  shows "cancelDebounce obj k s = (None, s)"
  using assms
  by (auto simp: cancelDebounce_def cancelDebounce_with_def Map_has_get)

theorem cancelDebounce_absent_noop_witness:
  "registeredDebounces (init h0 '''') 1 = None \<and>
   cancelDebounce 1 (Str ''logMe'') (init h0 '''') = (None, init h0 '''')"
  using cancelDebounce_absent_noop [of "init h0 ''''" 1 "Str ''logMe''"]
  by (simp add: init_def)

section \<open>debounceTask on invalid input\<close>

text \<open>
  C5. If the task identity is neither a string nor a function, or is a string whose
  member of the owner is not a function, or the owner is destroyed, \<open>debounceTask\<close>
  raises the failed assertion and the state is the one it started from: no map is
  created, no entry written, no disposable registered, no timer requested.
\<close>

theorem debounceTask_invalid_aborts:
  "(\<not> (is_string k \<or> is_function k) \<longrightarrow>
      debounceTask obj k dargs s = (Some (AssertionFailed NotStringOrFunction), s)) \<and>
   (is_string k \<and> \<not> is_function (props (heap s obj) k) \<longrightarrow>
      debounceTask obj k dargs s = (Some (AssertionFailed NotAFunction), s)) \<and>
   ((is_function k \<or> is_string k \<and> is_function (props (heap s obj) k)) \<and>
      isDestroyed (heap s obj) \<longrightarrow>
      debounceTask obj k dargs s = (Some (AssertionFailed DestroyedObject), s))"
  by (cases k) (simp_all add: debounceTask_def)

theorem debounceTask_invalid_aborts_witness:
  "\<not> (is_string (Num 3) \<or> is_function (Num 3)) \<and>
   debounceTask 1 (Num 3) [Num 300] (init h0 '''')
     = (Some (AssertionFailed NotStringOrFunction), init h0 '''') \<and>
   is_string (Str ''save'') \<and> \<not> is_function (props (heap (init h0 '''') 1) (Str ''save'')) \<and>
   debounceTask 1 (Str ''save'') [Num 300] (init h0 '''')
     = (Some (AssertionFailed NotAFunction), init h0 '''') \<and>
   is_function (Fn 7) \<and> isDestroyed (heap (step (Destroy 1) (init h0 '''')) 1) \<and>
   debounceTask 1 (Fn 7) [Num 300] (step (Destroy 1) (init h0 ''''))
     = (Some (AssertionFailed DestroyedObject), step (Destroy 1) (init h0 ''''))"
  using debounceTask_invalid_aborts [of "Num 3" 1 "[Num 300]" "init h0 ''''"]
    debounceTask_invalid_aborts [of "Str ''save''" 1 "[Num 300]" "init h0 ''''"]
    debounceTask_invalid_aborts [of "Fn 7" 1 "[Num 300]" "step (Destroy 1) (init h0 '''')"]
  by (simp add: init_def h0_def)

section \<open>The order of the two effects of cancelDebounce\<close>

text \<open>
  C10. Where the owner's map has an entry for the task identity, \<open>cancelDebounce\<close>
  deletes the entry and only then calls the run loop's \<^verbatim>\<open>cancel\<close> on the stored handle:
  \<^verbatim>\<open>cancel\<close> runs in a state whose map has no entry for the identity, and when
  \<^verbatim>\<open>cancel\<close> raises, the state left behind is the one with the entry deleted.
\<close>

theorem cancelDebounce_deletes_before_cancel:
  assumes "registeredDebounces s obj = Some m" and "Map_get (map_store s m) k = Some p"
  shows "cancelDebounce_with C obj k s =
           C (cancelId p) (s\<lparr>map_store := (map_store s)(m := Map_delete (map_store s m) k)\<rparr>) \<and>
         Map_get (Map_delete (map_store s m) k) k = None \<and>
         cancelDebounce_with (\<lambda>cid s'. (Some e, s')) obj k s =
           (Some e, s\<lparr>map_store := (map_store s)(m := Map_delete (map_store s m) k)\<rparr>)"
  using assms by (simp add: cancelDebounce_with_def Map_has_get Map_get_delete_same)

theorem cancelDebounce_deletes_before_cancel_witness:
  "registeredDebounces (run [Schedule 1 (Str ''logMe'') [Num 5, Num 300]] (init h0 '''')) 1
     = Some 0 \<and>
   Map_get (map_store (run [Schedule 1 (Str ''logMe'') [Num 5, Num 300]] (init h0 '''')) 0)
       (Str ''logMe'')
     = Some \<lparr>debouncedTask = \<lparr>c_id = 0, c_pendingDebounces = 0,
                c_nameOrFunction = Str ''logMe'', c_obj = 1\<rparr>, cancelId = 0\<rparr> \<and>
   fst (cancelDebounce_with (\<lambda>cid s'. (Some TypeError, s')) 1 (Str ''logMe'')
     (run [Schedule 1 (Str ''logMe'') [Num 5, Num 300]] (init h0 ''''))) = Some TypeError \<and>
   Map_get (map_store (snd (cancelDebounce_with (\<lambda>cid s'. (Some TypeError, s')) 1
     (Str ''logMe'') (run [Schedule 1 (Str ''logMe'') [Num 5, Num 300]] (init h0 '''')))) 0)
       (Str ''logMe'') = None"
proof -
  let ?s = "run [Schedule 1 (Str ''logMe'') [Num 5, Num 300]] (init h0 '''')"
  let ?p = "\<lparr>debouncedTask = \<lparr>c_id = 0, c_pendingDebounces = 0,
              c_nameOrFunction = Str ''logMe'', c_obj = 1\<rparr>, cancelId = 0\<rparr>"
  have r: "registeredDebounces ?s 1 = Some 0"
    by (simp add: model_defs Let_def)
  have e: "Map_get (map_store ?s 0) (Str ''logMe'') = Some ?p"
    by (simp add: model_defs Let_def)
  from cancelDebounce_deletes_before_cancel
         [OF r e, of "\<lambda>cid s'. (Some TypeError, s')" TypeError] r e
  show ?thesis by (simp add: Map_get_delete_same)
qed

section \<open>The fired callback\<close>

text \<open>
  Running the arrow function changes \<open>calls\<close> and the own properties of its map, and
  nothing else: the entries of every map stay as they are.
\<close>

lemma run_debouncedTask_fields:
  "heap (snd (run_debouncedTask c args s)) = heap s"
  "global_name (snd (run_debouncedTask c args s)) = global_name s"
  "next_map (snd (run_debouncedTask c args s)) = next_map s"
  "next_closure (snd (run_debouncedTask c args s)) = next_closure s"
  "next_timer (snd (run_debouncedTask c args s)) = next_timer s"
  "registeredDebounces (snd (run_debouncedTask c args s)) = registeredDebounces s"
  "disposables (snd (run_debouncedTask c args s)) = disposables s"
  "timers (snd (run_debouncedTask c args s)) = timers s"
  "entries (map_store (snd (run_debouncedTask c args s)) m) = entries (map_store s m)"
  by (simp_all add: run_debouncedTask_def Let_def split: jsval.splits)

lemma run_debouncedTask_Map_get:
  "Map_get (map_store (snd (run_debouncedTask c args s)) m) k = Map_get (map_store s m) k"
  by (simp add: Map_get_def run_debouncedTask_fields)

lemma fire_fields:
  "heap (snd (fire tid s)) = heap s"
  "global_name (snd (fire tid s)) = global_name s"
  "next_map (snd (fire tid s)) = next_map s"
  "next_closure (snd (fire tid s)) = next_closure s"
  "next_timer (snd (fire tid s)) = next_timer s"
  "registeredDebounces (snd (fire tid s)) = registeredDebounces s"
  "disposables (snd (fire tid s)) = disposables s"
  "entries (map_store (snd (fire tid s)) m) = entries (map_store s m)"
  by (simp_all add: fire_def run_debouncedTask_fields split: option.splits)

lemma fire_Map_get: "Map_get (map_store (snd (fire tid s)) m) k = Map_get (map_store s m) k"
  by (simp add: Map_get_def fire_fields)

lemma fire_timers: "timers (snd (fire tid s)) = filter (\<lambda>t. t_id t \<noteq> tid) (timers s)"
  using find_None_filter [of "\<lambda>t. t_id t = tid" "timers s"]
  by (simp add: fire_def run_debouncedTask_fields split: option.splits)

lemma run_debouncedTask_call:
  assumes "task_of (c_nameOrFunction c) (heap s (c_obj c)) = Fn f"
  shows "fst (run_debouncedTask c args s) = None"
    and "calls (snd (run_debouncedTask c args s))
      = calls s @ [\<lparr>callee = f, this_arg = c_obj c, arguments = args\<rparr>]"
  using assms
  by (cases "c_nameOrFunction c"; simp add: run_debouncedTask_def task_of_def Let_def)+

lemma timers_for_fire:
  "timers_for obj k (snd (fire tid s)) = filter (\<lambda>t. t_id t \<noteq> tid) (timers_for obj k s)"
  by (simp add: timers_for_def fire_timers conj_commute)

lemma fire_pending_entry: "pending_entry obj k (snd (fire tid s)) = pending_entry obj k s"
  by (simp add: pending_entry_def fire_fields fire_Map_get cong: option.case_cong)

text \<open>
  C1. The fired callback is to remove the entry of its task identity from the owner's
  map first, so that the next \<open>debounceTask\<close> starts afresh, and then to invoke the
  task. It invokes the task, but it removes no entry. Line 90 is
  \<^verbatim>\<open>delete pendingDebounces[name]\<close>, which removes an own property of the Map object,
  where \<open>cancelDebounce\<close> calls \<^verbatim>\<open>pendingDebounces.delete(nameOrFunction)\<close> (line 153). In the run \<open>es0\<close> followed by the firing of timer 0, the task is invoked
  with the argument kept for it and no timer is left, yet the entry \<open>p0\<close> is still in
  the map, and a further \<open>debounceTask\<close> makes no new arrow function.
\<close>

theorem fired_callback_keeps_entry:
  "pending_entry 1 (Str ''logMe'') (run (es0 @ [Fire 0]) (init h0 '''')) = Some p0 \<and>
   calls (run (es0 @ [Fire 0]) (init h0 ''''))
     = [\<lparr>callee = 7, this_arg = 1, arguments = [Num 1]\<rparr>] \<and>
   timers (run (es0 @ [Fire 0]) (init h0 '''')) = [] \<and>
   next_closure (run (es0 @ [Fire 0, Schedule 1 (Str ''logMe'') [Num 2, Num 300]])
     (init h0 '''')) = next_closure (run es0 (init h0 ''''))"
  by (simp add: es0_def p0_def pending_entry_def model_defs Let_def)

section \<open>A debounceTask that passes its asserts\<close>

text \<open>
  Either the three asserts hold, or the call raises and leaves the state alone. In the
  first case each component of the state after the call is given by the state before.
\<close>

lemma valid_or_abort:
  "valid_call obj k s \<or> (\<exists>a. debounceTask obj k dargs s = (Some (AssertionFailed a), s))"
  by (cases k) (simp_all add: debounceTask_def valid_call_def)

lemmas sched_defs = debounceTask_def valid_call_def pending_entry_def pending_map_def
  pending_task_def debounce_def registerDisposable_def Let_def

lemma debounceTask_result: "valid_call obj k s \<Longrightarrow> fst (debounceTask obj k dargs s) = None"
  by (auto simp: sched_defs split: option.splits)

lemma debounceTask_heap: "heap (snd (debounceTask obj k dargs s)) = heap s"
  by (auto simp: sched_defs split: option.splits)

lemma debounceTask_global_name: "global_name (snd (debounceTask obj k dargs s)) = global_name s"
  by (auto simp: sched_defs split: option.splits)

lemma debounceTask_calls: "calls (snd (debounceTask obj k dargs s)) = calls s"
  by (auto simp: sched_defs split: option.splits)

lemma debounceTask_registered:
  "valid_call obj k s \<Longrightarrow>
   registeredDebounces (snd (debounceTask obj k dargs s))
     = (registeredDebounces s)(obj \<mapsto> pending_map obj s)"
  by (auto simp: sched_defs split: option.splits)

lemma debounceTask_next_map:
  "valid_call obj k s \<Longrightarrow>
   next_map (snd (debounceTask obj k dargs s))
     = (if registeredDebounces s obj = None then Suc (next_map s) else next_map s)"
  by (auto simp: sched_defs split: option.splits)

lemma debounceTask_disposables:
  "valid_call obj k s \<Longrightarrow>
   disposables (snd (debounceTask obj k dargs s))
     = (if registeredDebounces s obj = None
        then disposables s @ [(obj, getDebouncesDisposable (Some (next_map s)))]
        else disposables s)"
  by (auto simp: sched_defs split: option.splits)

lemma debounceTask_next_closure:
  "valid_call obj k s \<Longrightarrow>
   next_closure (snd (debounceTask obj k dargs s))
     = (if pending_entry obj k s = None then Suc (next_closure s) else next_closure s)"
  by (auto simp: sched_defs split: option.splits)

lemma debounceTask_next_timer:
  "valid_call obj k s \<Longrightarrow> next_timer (snd (debounceTask obj k dargs s)) = Suc (next_timer s)"
  by (auto simp: sched_defs split: option.splits)

lemma debounceTask_timers:
  "valid_call obj k s \<Longrightarrow>
   timers (snd (debounceTask obj k dargs s))
     = filter (\<lambda>t. \<not> (t_target t = obj \<and> t_method t = pending_task obj k s)) (timers s)
       @ [\<lparr>t_id = next_timer s, t_target = obj, t_method = pending_task obj k s,
           t_args = butlast dargs\<rparr>]"
  by (auto simp: sched_defs split: option.splits)

lemma debounceTask_Map_get:
  "valid_call obj k s \<Longrightarrow>
   Map_get (map_store (snd (debounceTask obj k dargs s)) m) k'
     = (if m = pending_map obj s
        then (if k' = k
              then Some \<lparr>debouncedTask = pending_task obj k s, cancelId = next_timer s\<rparr>
              else if registeredDebounces s obj = None then None else Map_get (map_store s m) k')
        else Map_get (map_store s m) k')"
  by (auto simp: sched_defs Map_get_set split: option.splits)

lemma debounceTask_keys:
  "distinct (map fst (entries (map_store s m))) \<Longrightarrow>
   distinct (map fst (entries (map_store (snd (debounceTask obj k dargs s)) m)))"
  by (auto simp: sched_defs Map_set_def new_Map_def distinct_set_entry split: option.splits)

lemma valid_call_debounceTask:
  "valid_call obj k (snd (debounceTask obj' k' dargs s)) = valid_call obj k s"
  by (simp add: valid_call_def debounceTask_heap)

lemma valid_call_task:
  "valid_call obj k s \<Longrightarrow> \<exists>f. task_of k (heap s obj) = Fn f"
  by (cases k; cases "props (heap s obj) k") (simp_all add: valid_call_def task_of_def)

lemma pending_entry_debounceTask:
  assumes "valid_call obj k s"
  shows "pending_entry obj k (snd (debounceTask obj k dargs s))
     = Some \<lparr>debouncedTask = pending_task obj k s, cancelId = next_timer s\<rparr>"
  by (simp add: pending_entry_def debounceTask_registered [OF assms] debounceTask_Map_get [OF assms])

section \<open>cancelDebounce and the disposable\<close>

lemma cancelDebounce_absent:
  "pending_entry obj k s = None \<Longrightarrow> cancelDebounce obj k s = (None, s)"
  by (auto simp: pending_entry_def cancelDebounce_def cancelDebounce_with_def Map_has_get
      split: option.splits)

lemma cancelDebounce_present:
  assumes "registeredDebounces s obj = Some m" and "Map_get (map_store s m) k = Some p"
  shows "cancelDebounce obj k s =
    (None, s\<lparr>map_store := (map_store s)(m := Map_delete (map_store s m) k),
              timers := filter (\<lambda>t. t_id t \<noteq> cancelId p) (timers s)\<rparr>)"
  using assms
  by (simp add: cancelDebounce_def cancelDebounce_with_def Map_has_get cancel_def)

lemma cancel_all_cancel:
  "cancel_all cancel ps s =
     (None, s\<lparr>timers := filter (\<lambda>t. t_id t \<notin> set (map cancelId ps)) (timers s)\<rparr>)"
proof (induction ps arbitrary: s)
  case Nil
  show ?case by simp
next
  case (Cons p ps)
  have "filter (\<lambda>t. t_id t \<notin> set (map cancelId ps))
          (filter (\<lambda>t. t_id t \<noteq> cancelId p) (timers s))
      = filter (\<lambda>t. t_id t \<notin> set (map cancelId (p # ps))) (timers s)"
    by (auto intro: filter_cong)
  with Cons show ?case by (simp add: cancel_def)
qed

section \<open>Every reachable state is well-formed\<close>

lemma entries_okD:
  assumes "entries_ok s" and "Map_get (map_store s m) k = Some p"
  shows "registeredDebounces s (c_obj (debouncedTask p)) = Some m"
    and "c_id (debouncedTask p) < next_closure s" and "cancelId p < next_timer s"
  using assms unfolding entries_ok_def by blast+

lemma timers_okD:
  assumes "timers_ok s" and "x \<in> set (timers s)"
  shows "Map_get (map_store s (c_pendingDebounces (t_method x))) (c_nameOrFunction (t_method x))
          = Some \<lparr>debouncedTask = t_method x, cancelId = t_id x\<rparr>"
    and "t_id x < next_timer s"
  using assms unfolding timers_ok_def by blast+

lemma pending_task_reused:
  assumes "entries_ok s" and "pending_entry obj k s = Some p"
  shows "pending_task obj k s = debouncedTask p"
    and "c_pendingDebounces (debouncedTask p) = pending_map obj s"
    and "c_nameOrFunction (debouncedTask p) = k"
    and "registeredDebounces s (c_obj (debouncedTask p)) = Some (pending_map obj s)"
    and "c_id (debouncedTask p) < next_closure s"
    and "registeredDebounces s obj = Some (pending_map obj s)"
  using assms
  by (auto simp: entries_ok_def pending_entry_def pending_task_def pending_map_def
      split: option.splits)

lemma pending_task_shape:
  assumes "entries_ok s"
  shows "c_pendingDebounces (pending_task obj k s) = pending_map obj s"
    and "c_nameOrFunction (pending_task obj k s) = k"
    and "c_id (pending_task obj k s) < Suc (next_closure s)"
proof -
  show "c_pendingDebounces (pending_task obj k s) = pending_map obj s"
    using pending_task_reused(1,2) [OF assms]
    by (cases "pending_entry obj k s") (simp_all add: pending_task_def)
  show "c_nameOrFunction (pending_task obj k s) = k"
    using pending_task_reused(1,3) [OF assms]
    by (cases "pending_entry obj k s") (simp_all add: pending_task_def)
  show "c_id (pending_task obj k s) < Suc (next_closure s)"
    using pending_task_reused(1,5) [OF assms, of obj k]
    by (cases "pending_entry obj k s") (auto simp add: pending_task_def less_Suc_eq)
qed

lemma pending_task_obj:
  assumes "entries_ok s" and "reg_ok s"
  shows "c_obj (pending_task obj k s) = obj"
proof (cases "pending_entry obj k s")
  case None
  then show ?thesis by (simp add: pending_task_def)
next
  case (Some p)
  from pending_task_reused(1,4,6) [OF assms(1) Some] assms(2)
  show ?thesis by (auto simp: reg_ok_def)
qed

lemma reg_ok_debounceTask:
  assumes "reg_ok s"
  shows "reg_ok (snd (debounceTask obj k dargs s))"
proof -
  from valid_or_abort [of obj k s dargs] show ?thesis
  proof
    assume v: "valid_call obj k s"
    show ?thesis
      using assms
      unfolding reg_ok_def debounceTask_registered [OF v] debounceTask_next_map [OF v]
      by (auto simp: pending_map_def less_Suc_eq split: option.splits if_splits)
  next
    assume "\<exists>a. debounceTask obj k dargs s = (Some (AssertionFailed a), s)"
    with assms show ?thesis by auto
  qed
qed

lemma keys_ok_debounceTask: "keys_ok s \<Longrightarrow> keys_ok (snd (debounceTask obj k dargs s))"
  by (simp add: keys_ok_def debounceTask_keys)

lemma disp_ok_debounceTask:
  assumes "disp_ok s"
  shows "disp_ok (snd (debounceTask obj k dargs s))"
proof -
  from valid_or_abort [of obj k s dargs] show ?thesis
  proof
    assume v: "valid_call obj k s"
    show ?thesis
      using assms
      unfolding disp_ok_def debounceTask_registered [OF v] debounceTask_disposables [OF v]
      by (auto simp: pending_map_def split: option.splits)
  next
    assume "\<exists>a. debounceTask obj k dargs s = (Some (AssertionFailed a), s)"
    with assms show ?thesis by auto
  qed
qed

lemma entries_ok_debounceTask:
  assumes e: "entries_ok s"
  shows "entries_ok (snd (debounceTask obj k dargs s))"
proof -
  from valid_or_abort [of obj k s dargs] show ?thesis
  proof
    assume v: "valid_call obj k s"
    let ?s' = "snd (debounceTask obj k dargs s)"
    let ?m = "pending_map obj s"
    let ?c = "pending_task obj k s"
    have nc: "next_closure s \<le> next_closure ?s'"
      by (simp add: debounceTask_next_closure [OF v])
    have reg: "registeredDebounces ?s' = (registeredDebounces s)(obj \<mapsto> ?m)"
      by (rule debounceTask_registered [OF v])
    have new: "c_id ?c < next_closure ?s' \<and> registeredDebounces ?s' (c_obj ?c) = Some ?m"
    proof (cases "pending_entry obj k s")
      case None
      then show ?thesis by (simp add: reg debounceTask_next_closure [OF v] pending_task_def)
    next
      case (Some p)
      from pending_task_reused [OF e Some] show ?thesis
        by (simp add: reg debounceTask_next_closure [OF v] Some)
    qed
    have old: "c_id (debouncedTask p) < next_closure ?s' \<and> cancelId p < next_timer ?s' \<and>
        c_pendingDebounces (debouncedTask p) = m \<and> c_nameOrFunction (debouncedTask p) = k' \<and>
        registeredDebounces ?s' (c_obj (debouncedTask p)) = Some m"
      if "Map_get (map_store s m) k' = Some p" for m k' p
    proof -
      from e that have *: "c_id (debouncedTask p) < next_closure s" "cancelId p < next_timer s"
        "c_pendingDebounces (debouncedTask p) = m" "c_nameOrFunction (debouncedTask p) = k'"
        "registeredDebounces s (c_obj (debouncedTask p)) = Some m"
        by (auto simp: entries_ok_def)
      from *(5) have "registeredDebounces ?s' (c_obj (debouncedTask p)) = Some m"
        by (auto simp: reg pending_map_def)
      with * nc show ?thesis by (simp add: debounceTask_next_timer [OF v])
    qed
    show ?thesis
      unfolding entries_ok_def
    proof (intro allI impI)
      fix m k' p
      assume g: "Map_get (map_store ?s' m) k' = Some p"
      show "c_id (debouncedTask p) < next_closure ?s' \<and> cancelId p < next_timer ?s' \<and>
        c_pendingDebounces (debouncedTask p) = m \<and> c_nameOrFunction (debouncedTask p) = k' \<and>
        registeredDebounces ?s' (c_obj (debouncedTask p)) = Some m"
      proof (cases "m = ?m \<and> k' = k")
        case True
        with g have "p = \<lparr>debouncedTask = ?c, cancelId = next_timer s\<rparr>"
          by (simp add: debounceTask_Map_get [OF v])
        with True new pending_task_shape [OF e, of obj k] show ?thesis
          by (simp add: debounceTask_next_timer [OF v])
      next
        case False
        with g have "Map_get (map_store s m) k' = Some p"
          by (auto simp: debounceTask_Map_get [OF v] split: if_splits)
        then show ?thesis by (rule old)
      qed
    qed
  next
    assume "\<exists>a. debounceTask obj k dargs s = (Some (AssertionFailed a), s)"
    with assms show ?thesis by auto
  qed
qed

lemma timers_ok_debounceTask:
  assumes e: "entries_ok s" and r: "reg_ok s" and t: "timers_ok s"
  shows "timers_ok (snd (debounceTask obj k dargs s))"
proof -
  from valid_or_abort [of obj k s dargs] show ?thesis
  proof
    assume v: "valid_call obj k s"
    let ?s' = "snd (debounceTask obj k dargs s)"
    let ?m = "pending_map obj s"
    let ?c = "pending_task obj k s"
    let ?new = "\<lparr>t_id = next_timer s, t_target = obj, t_method = ?c, t_args = butlast dargs\<rparr>"
    let ?keep = "filter (\<lambda>t. \<not> (t_target t = obj \<and> t_method t = ?c)) (timers s)"
    have ts: "timers ?s' = ?keep @ [?new]"
      by (rule debounceTask_timers [OF v])
    have ids: "\<forall>x \<in> set (timers s). t_id x < next_timer s"
      using t by (simp add: timers_ok_def)
    have d: "distinct (map t_id (timers ?s'))"
    proof -
      have "distinct (map t_id ?keep)"
        using t by (simp add: timers_ok_def distinct_map_filter)
      moreover have "next_timer s \<notin> t_id ` set ?keep"
        using ids by auto
      ultimately show ?thesis by (simp add: ts)
    qed
    have shape: "c_pendingDebounces ?c = ?m" "c_nameOrFunction ?c = k" "c_obj ?c = obj"
      using pending_task_shape [OF e, of obj k] pending_task_obj [OF e r, of obj k] by simp_all
    have new: "t_id ?new < next_timer ?s' \<and> t_target ?new = c_obj (t_method ?new) \<and>
        Map_get (map_store ?s' (c_pendingDebounces (t_method ?new))) (c_nameOrFunction (t_method ?new))
          = Some \<lparr>debouncedTask = t_method ?new, cancelId = t_id ?new\<rparr>"
      by (simp add: shape debounceTask_next_timer [OF v] debounceTask_Map_get [OF v])
    have old: "t_id x < next_timer ?s' \<and> t_target x = c_obj (t_method x) \<and>
        Map_get (map_store ?s' (c_pendingDebounces (t_method x))) (c_nameOrFunction (t_method x))
          = Some \<lparr>debouncedTask = t_method x, cancelId = t_id x\<rparr>"
      if x: "x \<in> set (timers s)" and nx: "\<not> (t_target x = obj \<and> t_method x = ?c)" for x
    proof -
      let ?xm = "c_pendingDebounces (t_method x)"
      let ?xk = "c_nameOrFunction (t_method x)"
      from t x have x1: "t_id x < next_timer s" and x2: "t_target x = c_obj (t_method x)"
        and x3: "Map_get (map_store s ?xm) ?xk = Some \<lparr>debouncedTask = t_method x, cancelId = t_id x\<rparr>"
        by (auto simp: timers_ok_def)
      from e x3 have x4: "registeredDebounces s (c_obj (t_method x)) = Some ?xm"
        by (fastforce simp: entries_ok_def)
      have "Map_get (map_store ?s' ?xm) ?xk = Map_get (map_store s ?xm) ?xk"
      proof (cases "?xm = ?m")
        case False
        then show ?thesis by (simp add: debounceTask_Map_get [OF v])
      next
        case True
        show ?thesis
        proof (cases "registeredDebounces s obj")
          case None
          then have "?m = next_map s" by (simp add: pending_map_def)
          with True x4 r show ?thesis by (auto simp: reg_ok_def)
        next
          case (Some m)
          then have m: "?m = m" by (simp add: pending_map_def)
          with True x4 Some r have xo: "c_obj (t_method x) = obj"
            by (auto simp: reg_ok_def)
          have "?xk \<noteq> k"
          proof
            assume "?xk = k"
            with x3 True m Some have "pending_entry obj k s
                = Some \<lparr>debouncedTask = t_method x, cancelId = t_id x\<rparr>"
              by (simp add: pending_entry_def)
            then have "?c = t_method x" by (simp add: pending_task_def)
            with xo x2 nx show False by simp
          qed
          with Some show ?thesis by (simp add: debounceTask_Map_get [OF v])
        qed
      qed
      with x1 x2 x3 show ?thesis by (simp add: debounceTask_next_timer [OF v])
    qed
    show ?thesis
      unfolding timers_ok_def
    proof (rule conjI [OF d], rule ballI)
      fix x assume "x \<in> set (timers ?s')"
      then have "x = ?new \<or> (x \<in> set (timers s) \<and> \<not> (t_target x = obj \<and> t_method x = ?c))"
        by (auto simp: ts)
      then show "t_id x < next_timer ?s' \<and> t_target x = c_obj (t_method x) \<and>
        Map_get (map_store ?s' (c_pendingDebounces (t_method x))) (c_nameOrFunction (t_method x))
          = Some \<lparr>debouncedTask = t_method x, cancelId = t_id x\<rparr>"
        using new old by blast
    qed
  next
    assume "\<exists>a. debounceTask obj k dargs s = (Some (AssertionFailed a), s)"
    with t show ?thesis by auto
  qed
qed

lemma wf_debounceTask: "wf_state s \<Longrightarrow> wf_state (snd (debounceTask obj k dargs s))"
  by (simp add: wf_state_def reg_ok_debounceTask entries_ok_debounceTask timers_ok_debounceTask
      keys_ok_debounceTask disp_ok_debounceTask)

lemma wf_filter_timers:
  assumes "wf_state s"
  shows "wf_state (s\<lparr>timers := filter P (timers s)\<rparr>)"
  using assms
  by (auto simp: wf_state_def reg_ok_def entries_ok_def timers_ok_def keys_ok_def disp_ok_def
      distinct_map_filter)

lemma wf_cancelDebounce:
  assumes w: "wf_state s"
  shows "wf_state (snd (cancelDebounce obj k s))"
proof (cases "pending_entry obj k s")
  case None
  with w show ?thesis by (simp add: cancelDebounce_absent)
next
  case (Some p)
  then obtain m where m: "registeredDebounces s obj = Some m"
    and g: "Map_get (map_store s m) k = Some p"
    by (auto simp: pending_entry_def split: option.splits)
  let ?s' = "s\<lparr>map_store := (map_store s)(m := Map_delete (map_store s m) k),
              timers := filter (\<lambda>t. t_id t \<noteq> cancelId p) (timers s)\<rparr>"
  have get: "Map_get (map_store ?s' m') k' =
      (if m' = m \<and> k' = k then None else Map_get (map_store s m') k')" for m' k'
    by (simp add: Map_get_delete)
  from w have r: "reg_ok s" and e: "entries_ok s" and t: "timers_ok s" and ks: "keys_ok s"
    and d: "disp_ok s"
    by (simp_all add: wf_state_def)
  have "reg_ok ?s'" using r by (simp add: reg_ok_def)
  moreover have "entries_ok ?s'"
    unfolding entries_ok_def
  proof (intro allI impI)
    fix m' k' p'
    assume "Map_get (map_store ?s' m') k' = Some p'"
    then have "Map_get (map_store s m') k' = Some p'"
      unfolding get by (simp split: if_splits)
    with e show "c_id (debouncedTask p') < next_closure ?s' \<and> cancelId p' < next_timer ?s' \<and>
        c_pendingDebounces (debouncedTask p') = m' \<and> c_nameOrFunction (debouncedTask p') = k' \<and>
        registeredDebounces ?s' (c_obj (debouncedTask p')) = Some m'"
      by (simp add: entries_ok_def)
  qed
  moreover have "timers_ok ?s'"
    unfolding timers_ok_def
  proof (rule conjI, goal_cases)
    case 1
    from t show ?case by (simp add: timers_ok_def distinct_map_filter)
  next
    case 2
    show ?case
    proof
      fix x assume "x \<in> set (timers ?s')"
      then have x: "x \<in> set (timers s)" and ne: "t_id x \<noteq> cancelId p" by auto
      let ?xm = "c_pendingDebounces (t_method x)"
      let ?xk = "c_nameOrFunction (t_method x)"
      from t x have x1: "t_id x < next_timer s" and x2: "t_target x = c_obj (t_method x)"
        and x3: "Map_get (map_store s ?xm) ?xk = Some \<lparr>debouncedTask = t_method x, cancelId = t_id x\<rparr>"
        by (auto simp: timers_ok_def)
      have "\<not> (?xm = m \<and> ?xk = k)"
        using x3 g ne by auto
      then have "Map_get (map_store ?s' ?xm) ?xk = Map_get (map_store s ?xm) ?xk"
        unfolding get by auto
      with x1 x2 x3 show "t_id x < next_timer ?s' \<and> t_target x = c_obj (t_method x) \<and>
        Map_get (map_store ?s' ?xm) ?xk = Some \<lparr>debouncedTask = t_method x, cancelId = t_id x\<rparr>"
        by simp
    qed
  qed
  moreover have "keys_ok ?s'" using ks by (simp add: keys_ok_def distinct_Map_delete)
  moreover have "disp_ok ?s'" using d by (simp add: disp_ok_def)
  ultimately show ?thesis
    by (simp add: cancelDebounce_present [OF m g] wf_state_def)
qed

lemma wf_fire:
  assumes "wf_state s"
  shows "wf_state (snd (fire tid s))"
  using assms
  by (auto simp: wf_state_def reg_ok_def entries_ok_def timers_ok_def keys_ok_def disp_ok_def
      fire_fields fire_Map_get fire_timers distinct_map_filter)

lemma run_disposable_shape:
  "\<exists>P. snd (run_disposable d s) = s\<lparr>timers := filter P (timers s)\<rparr>"
proof (cases d)
  case (DebouncesDisposable x)
  show ?thesis
  proof (cases x)
    case None
    have "s = s\<lparr>timers := filter (\<lambda>_. True) (timers s)\<rparr>" by simp
    with None DebouncesDisposable show ?thesis by (auto intro: exI [of _ "\<lambda>_. True"])
  next
    case (Some m)
    with DebouncesDisposable show ?thesis by (auto simp: cancel_all_cancel)
  qed
qed

lemma wf_run_disposable: "wf_state s \<Longrightarrow> wf_state (snd (run_disposable d s))"
  using run_disposable_shape [of d s] by (auto simp: wf_filter_timers)

lemma wf_run_disposables: "wf_state s \<Longrightarrow> wf_state (run_disposables ds s)"
  by (induction ds arbitrary: s) (simp_all add: wf_run_disposable)

lemma wf_teardown: "wf_state s \<Longrightarrow> wf_state (teardown obj s)"
  by (simp add: teardown_def wf_run_disposables)

lemma wf_heap_update: "wf_state s \<Longrightarrow> wf_state (s\<lparr>heap := h\<rparr>)"
  by (simp add: wf_state_def reg_ok_def entries_ok_def timers_ok_def keys_ok_def disp_ok_def)

lemma wf_init: "wf_state (init h g)"
  by (simp add: wf_state_def reg_ok_def entries_ok_def timers_ok_def keys_ok_def disp_ok_def
      init_def new_Map_def Map_get_def)

lemma wf_step: "wf_state s \<Longrightarrow> wf_state (step e s)"
  by (cases e) (simp_all add: wf_debounceTask wf_cancelDebounce wf_fire wf_teardown wf_heap_update)

lemma wf_run: "wf_state s \<Longrightarrow> wf_state (run es s)"
  by (induction es arbitrary: s) (simp_all add: wf_step)

lemma wf_reachable: "wf_state (run es (init h g))"
  by (simp add: wf_run wf_init)

section \<open>Registration of the disposable\<close>

text \<open>
  C7. In every state reached from the initial one, the registrations made for an owner
  through \<open>registerDisposable\<close> are none when the owner has no map and exactly one
  when it has, the disposable over its map. A \<open>debounceTask\<close> registers it when, and
  only when, it passes its asserts and the owner has no map yet, which is when it
  creates the map; \<open>cancelDebounce\<close> never registers.
\<close>

theorem teardown_registered_once:
  "filter (\<lambda>r. fst r = obj) (disposables (run es (init h g))) =
     (case registeredDebounces (run es (init h g)) obj of
        None \<Rightarrow> []
      | Some m \<Rightarrow> [(obj, getDebouncesDisposable (Some m))]) \<and>
   disposables (snd (debounceTask obj k dargs s)) =
     (if valid_call obj k s \<and> registeredDebounces s obj = None
      then disposables s @ [(obj, getDebouncesDisposable (Some (next_map s)))]
      else disposables s) \<and>
   disposables (snd (cancelDebounce obj k s)) = disposables s"
proof (intro conjI)
  let ?s = "run es (init h g)"
  have "disp_ok ?s" using wf_reachable [of es h g] by (simp add: wf_state_def)
  then have m: "map snd (filter (\<lambda>r. fst r = obj) (disposables ?s)) =
        (case registeredDebounces ?s obj of
           None \<Rightarrow> []
         | Some m \<Rightarrow> [getDebouncesDisposable (Some m)])"
    by (simp add: disp_ok_def)
  have f: "map fst (filter (\<lambda>r. fst r = obj) xs) = replicate (length (filter (\<lambda>r. fst r = obj) xs)) obj"
    for xs :: "(ref \<times> disposable) list"
    by (induction xs) auto
  show "filter (\<lambda>r. fst r = obj) (disposables ?s) =
     (case registeredDebounces ?s obj of
        None \<Rightarrow> []
      | Some m \<Rightarrow> [(obj, getDebouncesDisposable (Some m))])"
  proof (cases "registeredDebounces ?s obj")
    case None
    with m show ?thesis by simp
  next
    case (Some a)
    with m have "map snd (filter (\<lambda>r. fst r = obj) (disposables ?s)) = [getDebouncesDisposable (Some a)]"
      by simp
    then obtain r where r: "filter (\<lambda>r. fst r = obj) (disposables ?s) = [r]"
      and "snd r = getDebouncesDisposable (Some a)"
      by (auto simp: map_eq_Cons_conv)
    moreover from r have "r \<in> set (filter (\<lambda>r. fst r = obj) (disposables ?s))" by simp
    then have "fst r = obj" by simp
    ultimately have "filter (\<lambda>r. fst r = obj) (disposables ?s) = [(obj, getDebouncesDisposable (Some a))]"
      by (cases r) simp
    with Some show ?thesis by simp
  qed
next
  show "disposables (snd (debounceTask obj k dargs s)) =
     (if valid_call obj k s \<and> registeredDebounces s obj = None
      then disposables s @ [(obj, getDebouncesDisposable (Some (next_map s)))]
      else disposables s)"
    using valid_or_abort [of obj k s dargs]
  proof
    assume "valid_call obj k s"
    then show ?thesis by (simp add: debounceTask_disposables)
  next
    assume a: "\<exists>a. debounceTask obj k dargs s = (Some (AssertionFailed a), s)"
    then have "\<not> valid_call obj k s"
      using debounceTask_result [of obj k s dargs] by auto
    with a show ?thesis by auto
  qed
next
  show "disposables (snd (cancelDebounce obj k s)) = disposables s"
    by (simp add: cancelDebounce_def cancelDebounce_with_def cancel_def
        split: option.splits)
qed

theorem teardown_registered_once_witness:
  "filter (\<lambda>r. fst r = 1)
     (disposables (run (es0 @ [Schedule 1 (Fn 7) [Num 300], Cancel 1 (Str ''logMe'')])
        (init h0 '''')))
   = [(1, getDebouncesDisposable (Some 0))]"
proof -
  have "registeredDebounces
      (run (es0 @ [Schedule 1 (Fn 7) [Num 300], Cancel 1 (Str ''logMe'')]) (init h0 '''')) 1
    = Some 0"
    by (simp add: es0_def model_defs Let_def)
  with teardown_registered_once
         [THEN conjunct1, of 1 "es0 @ [Schedule 1 (Fn 7) [Num 300], Cancel 1 (Str ''logMe'')]"
           h0 "''''"]
  show ?thesis by simp
qed

section \<open>The disposable\<close>



section \<open>At most one Pending Debounce\<close>

lemma timers_for_id:
  assumes w: "wf_state s" and x: "x \<in> set (timers_for obj k s)"
  shows "pending_entry obj k s = Some \<lparr>debouncedTask = t_method x, cancelId = t_id x\<rparr>"
proof -
  from x have xs: "x \<in> set (timers s)" and o: "c_obj (t_method x) = obj"
    and kk: "c_nameOrFunction (t_method x) = k"
    by (simp_all add: timers_for_def)
  from w have e: "entries_ok s" and t: "timers_ok s" by (simp_all add: wf_state_def)
  note g = timers_okD(1) [OF t xs]
  from entries_okD(1) [OF e g]
  have "registeredDebounces s (c_obj (t_method x)) = Some (c_pendingDebounces (t_method x))"
    by simp
  with g o kk show ?thesis by (simp add: pending_entry_def)
qed

lemma timers_for_cancelId:
  assumes w: "wf_state s" and p: "pending_entry obj k s = Some p" and y: "y \<in> set (timers s)"
    and o: "c_obj (t_method y) = obj" and k: "c_nameOrFunction (t_method y) = k"
  shows "t_id y = cancelId p"
proof -
  from y o k have "y \<in> set (timers_for obj k s)" by (simp add: timers_for_def)
  from timers_for_id [OF w this] have "pending_entry obj k s
      = Some \<lparr>debouncedTask = t_method y, cancelId = t_id y\<rparr>" .
  then have "p = \<lparr>debouncedTask = t_method y, cancelId = t_id y\<rparr>"
    unfolding p by simp
  then show ?thesis by simp
qed

lemma timers_for_at_most_one:
  assumes w: "wf_state s"
  shows "length (timers_for obj k s) \<le> 1"
proof (cases "pending_entry obj k s")
  case None
  have "timers_for obj k s = []"
  proof (cases "timers_for obj k s")
    case Nil
    then show ?thesis .
  next
    case (Cons x xs)
    then have "x \<in> set (timers_for obj k s)" by simp
    from timers_for_id [OF w this] None show ?thesis by simp
  qed
  then show ?thesis by simp
next
  case (Some p)
  have "\<forall>y \<in> set (timers s). c_obj (t_method y) = obj \<and> c_nameOrFunction (t_method y) = k
      \<longrightarrow> t_id y = cancelId p"
    using timers_for_cancelId [OF w Some] by blast
  moreover from w have "distinct (map t_id (timers s))" by (simp add: wf_state_def timers_ok_def)
  ultimately show ?thesis
    unfolding timers_for_def by (intro filter_at_most_one [where f = t_id and a = "cancelId p"])
qed

text \<open>
  C8. In every state reached from the initial one by any sequence of events, a map
  has at most one entry under a given task identity, and the run loop has at most one
  pending timer for a given owner and task identity.
\<close>

theorem at_most_one_pending_debounce:
  "length (filter (\<lambda>e. fst e = k) (entries (map_store (run es (init h g)) m))) \<le> 1 \<and>
   length (timers_for obj k (run es (init h g))) \<le> 1"
proof
  have "keys_ok (run es (init h g))"
    using wf_reachable [of es h g] by (simp add: wf_state_def)
  then show "length (filter (\<lambda>e. fst e = k) (entries (map_store (run es (init h g)) m))) \<le> 1"
    by (intro distinct_key_count) (simp add: keys_ok_def)
  show "length (timers_for obj k (run es (init h g))) \<le> 1"
    by (rule timers_for_at_most_one [OF wf_reachable])
qed

theorem at_most_one_pending_debounce_witness:
  "length (filter (\<lambda>e. fst e = Str ''logMe'')
     (entries (map_store (run (es0 @ es0 @ [Fire 0] @ es0) (init h0 '''')) 0))) \<le> 1 \<and>
   length (timers_for 1 (Str ''logMe'') (run (es0 @ es0 @ [Fire 0] @ es0) (init h0 ''''))) \<le> 1"
  by (rule at_most_one_pending_debounce)

section \<open>The member is resolved when the timer fires\<close>

lemma fire_pending:
  assumes "wf_state s" and "x \<in> set (timers s)"
  shows "fire (t_id x) s = run_debouncedTask (t_method x) (t_args x)
           (s\<lparr>timers := filter (\<lambda>t. t_id t \<noteq> t_id x) (timers s)\<rparr>)"
proof -
  from assms(1) have "distinct (map t_id (timers s))" by (simp add: wf_state_def timers_ok_def)
  from find_distinct [OF this assms(2)] show ?thesis by (simp add: fire_def)
qed

text \<open>
  C9. In a reachable state let \<open>debounceTask\<close> pass its asserts for an owner and the
  name of a member, let the member then be assigned the value \<open>v'\<close>, and let the timer of
  that call fire. If \<open>v'\<close> is a function, it is the function invoked, on the owner and
  with the arguments of the call; if it is not, the firing raises a TypeError and
  invokes nothing. What the member was when \<open>debounceTask\<close> ran plays no part.
\<close>

theorem debouncedTask_resolves_member_when_fired:
  fixes es h g obj n dargs
  defines "s \<equiv> run es (init h g)"
  defines "s1 \<equiv> snd (debounceTask obj (Str n) dargs s)"
  assumes v: "valid_call obj (Str n) s"
  shows "fst (fire (next_timer s) (step (Assign obj (Str n) v') s1))
           = (if is_function v' then None else Some TypeError) \<and>
         calls (snd (fire (next_timer s) (step (Assign obj (Str n) v') s1)))
           = (case v' of
                Fn f' \<Rightarrow> calls s @ [\<lparr>callee = f', this_arg = obj, arguments = butlast dargs\<rparr>]
              | _ \<Rightarrow> calls s)"
proof -
  let ?k = "Str n"
  let ?s2 = "step (Assign obj ?k v') s1"
  let ?new = "\<lparr>t_id = next_timer s, t_target = obj, t_method = pending_task obj ?k s,
        t_args = butlast dargs\<rparr>"
  have w: "wf_state s" unfolding s_def by (rule wf_reachable)
  then have e: "entries_ok s" and r: "reg_ok s" by (simp_all add: wf_state_def)
  have w2: "wf_state ?s2" unfolding s1_def by (intro wf_step wf_debounceTask w)
  have "?new \<in> set (timers ?s2)"
    by (simp add: s1_def debounceTask_timers [OF v])
  from fire_pending [OF w2 this]
  have f: "fire (next_timer s) ?s2 = run_debouncedTask (pending_task obj ?k s) (butlast dargs)
           (?s2\<lparr>timers := filter (\<lambda>t. t_id t \<noteq> next_timer s) (timers ?s2)\<rparr>)"
    by simp
  have shape: "c_pendingDebounces (pending_task obj ?k s) = pending_map obj s"
    "c_nameOrFunction (pending_task obj ?k s) = ?k" "c_obj (pending_task obj ?k s) = obj"
    using pending_task_shape [OF e, of obj ?k] pending_task_obj [OF e r, of obj ?k] by simp_all
  show ?thesis
    unfolding f
    by (cases v')
      (simp_all add: run_debouncedTask_def shape Let_def s1_def debounceTask_global_name
        debounceTask_calls)
qed

theorem debouncedTask_resolves_member_when_fired_witness:
  "valid_call 1 (Str ''logMe'') (run es0 (init h0 '''')) \<and>
   task_of (Str ''logMe'') (heap (run es0 (init h0 '''')) 1) = Fn 7 \<and>
   fst (fire (next_timer (run es0 (init h0 '''')))
          (step (Assign 1 (Str ''logMe'') (Fn 8))
             (snd (debounceTask 1 (Str ''logMe'') [Num 5, Num 300] (run es0 (init h0 ''''))))))
     = None \<and>
   calls (snd (fire (next_timer (run es0 (init h0 '''')))
          (step (Assign 1 (Str ''logMe'') (Fn 8))
             (snd (debounceTask 1 (Str ''logMe'') [Num 5, Num 300] (run es0 (init h0 '''')))))))
     = [\<lparr>callee = 8, this_arg = 1, arguments = [Num 5]\<rparr>]"
proof -
  have v: "valid_call 1 (Str ''logMe'') (run es0 (init h0 ''''))"
    by (simp add: valid_call_def es0_def model_defs Let_def)
  have t: "task_of (Str ''logMe'') (heap (run es0 (init h0 '''')) 1) = Fn 7"
    by (simp add: task_of_def es0_def model_defs Let_def)
  have c: "calls (run es0 (init h0 '''')) = []"
    by (simp add: es0_def model_defs Let_def)
  from debouncedTask_resolves_member_when_fired
         [OF v, where v' = "Fn 8" and dargs = "[Num 5, Num 300]"] v t c
  show ?thesis by simp
qed

section \<open>Coalescing\<close>

lemma timers_for_debounceTask:
  assumes w: "wf_state s" and v: "valid_call obj k s"
  shows "timers_for obj k (snd (debounceTask obj k dargs s)) =
     [\<lparr>t_id = next_timer s, t_target = obj, t_method = pending_task obj k s,
        t_args = butlast dargs\<rparr>]"
proof -
  let ?s' = "snd (debounceTask obj k dargs s)"
  let ?new = "\<lparr>t_id = next_timer s, t_target = obj, t_method = pending_task obj k s,
        t_args = butlast dargs\<rparr>"
  from w have e: "entries_ok s" and r: "reg_ok s" by (simp_all add: wf_state_def)
  have w': "wf_state ?s'" by (rule wf_debounceTask [OF w])
  have shape: "c_nameOrFunction (pending_task obj k s) = k" "c_obj (pending_task obj k s) = obj"
    using pending_task_shape [OF e, of obj k] pending_task_obj [OF e r, of obj k] by simp_all
  have pe: "pending_entry obj k ?s' = Some \<lparr>debouncedTask = pending_task obj k s, cancelId = next_timer s\<rparr>"
    by (simp add: pending_entry_def debounceTask_registered [OF v] debounceTask_Map_get [OF v])
  have "?new \<in> set (timers ?s')" by (simp add: debounceTask_timers [OF v])
  moreover have "c_obj (t_method ?new) = obj \<and> c_nameOrFunction (t_method ?new) = k"
    by (simp add: shape)
  moreover have "\<forall>y \<in> set (timers ?s'). c_obj (t_method y) = obj \<and> c_nameOrFunction (t_method y) = k
      \<longrightarrow> t_id y = t_id ?new"
    using timers_for_cancelId [OF w' pe] by simp
  moreover from w' have "distinct (map t_id (timers ?s'))" by (simp add: wf_state_def timers_ok_def)
  ultimately show ?thesis
    unfolding timers_for_def by (intro filter_singleton [where f = t_id])
qed

lemma schedule_many:
  assumes "argss \<noteq> []" and "wf_state s" and "valid_call obj k s"
  shows "\<exists>tid. wf_state (run (map (Schedule obj k) argss) s) \<and>
           heap (run (map (Schedule obj k) argss) s) = heap s \<and>
           calls (run (map (Schedule obj k) argss) s) = calls s \<and>
           pending_entry obj k (run (map (Schedule obj k) argss) s)
             = Some \<lparr>debouncedTask = pending_task obj k s, cancelId = tid\<rparr> \<and>
           timers_for obj k (run (map (Schedule obj k) argss) s)
             = [\<lparr>t_id = tid, t_target = obj, t_method = pending_task obj k s,
                 t_args = butlast (last argss)\<rparr>]"
  using assms
proof (induction argss arbitrary: s rule: list_nonempty_induct)
  case (single a)
  then show ?case
    by (simp add: wf_debounceTask debounceTask_heap debounceTask_calls
        pending_entry_debounceTask timers_for_debounceTask)
next
  case (cons a argss)
  let ?s1 = "snd (debounceTask obj k a s)"
  have w1: "wf_state ?s1" by (rule wf_debounceTask [OF cons.prems(1)])
  have v1: "valid_call obj k ?s1"
    using cons.prems(2) by (simp add: valid_call_debounceTask)
  have t1: "pending_task obj k ?s1 = pending_task obj k s"
    by (simp add: pending_task_def pending_entry_debounceTask [OF cons.prems(2)])
  from cons.IH [OF w1 v1] cons.hyps show ?case
    by (simp add: t1 debounceTask_heap debounceTask_calls)
qed

text \<open>
  C2. In a reachable state where \<open>debounceTask\<close> passes its asserts: if the owner and
  task identity have a Pending Debounce \<open>p\<close>, a further call returns normally, makes no
  new arrow function, and stores under the identity the arrow function of \<open>p\<close> with the
  handle of a new timer, which is neither the handle of \<open>p\<close> nor that of any pending
  timer. After any N \<ge> 1 such calls in a row the run loop has exactly one pending timer
  for the owner and task identity; it holds the arrow function of \<open>p\<close> (a new one when
  there was no Pending Debounce) and the arguments of the last call. Firing it invokes
  the task once, on the owner and with those arguments, and leaves no pending timer for
  the owner and task identity.
\<close>

theorem debounceTask_coalesces:
  fixes es h g obj k dargs argss
  defines "s \<equiv> run es (init h g)"
  defines "s1 \<equiv> snd (debounceTask obj k dargs s)"
  defines "sn \<equiv> run (map (Schedule obj k) argss) s"
  assumes v: "valid_call obj k s" and n: "argss \<noteq> []"
  shows "(\<forall>p. pending_entry obj k s = Some p \<longrightarrow>
            fst (debounceTask obj k dargs s) = None \<and>
            pending_entry obj k s1
              = Some \<lparr>debouncedTask = debouncedTask p, cancelId = next_timer s\<rparr> \<and>
            next_closure s1 = next_closure s \<and>
            next_timer s \<noteq> cancelId p \<and> next_timer s \<notin> t_id ` set (timers s)) \<and>
         (\<exists>c tid f.
            (\<forall>p. pending_entry obj k s = Some p \<longrightarrow> c = debouncedTask p) \<and>
            pending_entry obj k sn = Some \<lparr>debouncedTask = c, cancelId = tid\<rparr> \<and>
            timers_for obj k sn
              = [\<lparr>t_id = tid, t_target = obj, t_method = c, t_args = butlast (last argss)\<rparr>] \<and>
            task_of k (heap s obj) = Fn f \<and>
            fst (fire tid sn) = None \<and>
            calls (snd (fire tid sn))
              = calls s @ [\<lparr>callee = f, this_arg = obj, arguments = butlast (last argss)\<rparr>] \<and>
            timers_for obj k (snd (fire tid sn)) = [])"
proof (rule conjI)
  have w: "wf_state s" unfolding s_def by (rule wf_reachable)
  then have e: "entries_ok s" and r: "reg_ok s" and t: "timers_ok s"
    by (simp_all add: wf_state_def)
  show "\<forall>p. pending_entry obj k s = Some p \<longrightarrow>
            fst (debounceTask obj k dargs s) = None \<and>
            pending_entry obj k s1
              = Some \<lparr>debouncedTask = debouncedTask p, cancelId = next_timer s\<rparr> \<and>
            next_closure s1 = next_closure s \<and>
            next_timer s \<noteq> cancelId p \<and> next_timer s \<notin> t_id ` set (timers s)"
  proof (intro allI impI)
    fix p assume p: "pending_entry obj k s = Some p"
    then have c: "pending_task obj k s = debouncedTask p"
      by (simp add: pending_task_def)
    have 1: "fst (debounceTask obj k dargs s) = None"
      by (rule debounceTask_result [OF v])
    have 2: "pending_entry obj k s1
        = Some \<lparr>debouncedTask = debouncedTask p, cancelId = next_timer s\<rparr>"
      unfolding s1_def by (simp add: pending_entry_debounceTask [OF v] c)
    have 3: "next_closure s1 = next_closure s"
      unfolding s1_def using p by (simp add: debounceTask_next_closure [OF v])
    from p obtain m where "Map_get (map_store s m) k = Some p"
      by (auto simp: pending_entry_def split: option.splits)
    from entries_okD(3) [OF e this] have 4: "next_timer s \<noteq> cancelId p" by simp
    have 5: "next_timer s \<notin> t_id ` set (timers s)"
      using timers_okD(2) [OF t] by fastforce
    from 1 2 3 4 5 show "fst (debounceTask obj k dargs s) = None \<and>
            pending_entry obj k s1
              = Some \<lparr>debouncedTask = debouncedTask p, cancelId = next_timer s\<rparr> \<and>
            next_closure s1 = next_closure s \<and>
            next_timer s \<noteq> cancelId p \<and> next_timer s \<notin> t_id ` set (timers s)"
      by blast
  qed
  let ?c = "pending_task obj k s"
  from schedule_many [OF n w v] obtain tid where
    wn: "wf_state sn" and hn: "heap sn = heap s" and cn: "calls sn = calls s"
    and pn: "pending_entry obj k sn = Some \<lparr>debouncedTask = ?c, cancelId = tid\<rparr>"
    and tn: "timers_for obj k sn = [\<lparr>t_id = tid, t_target = obj, t_method = ?c,
                                    t_args = butlast (last argss)\<rparr>]"
    unfolding sn_def by blast
  let ?x = "\<lparr>t_id = tid, t_target = obj, t_method = ?c, t_args = butlast (last argss)\<rparr>"
  from valid_call_task [OF v] obtain f where f: "task_of k (heap s obj) = Fn f" ..
  have "?x \<in> set (timers_for obj k sn)" by (simp add: tn)
  then have x: "?x \<in> set (timers sn)" by (simp add: timers_for_def)
  have shape: "c_nameOrFunction ?c = k" "c_obj ?c = obj"
    using pending_task_shape [OF e, of obj k] pending_task_obj [OF e r, of obj k]
    by simp_all
  let ?sf = "sn\<lparr>timers := filter (\<lambda>t. t_id t \<noteq> tid) (timers sn)\<rparr>"
  have fi: "fire tid sn = run_debouncedTask ?c (butlast (last argss)) ?sf"
    using fire_pending [OF wn x] by simp
  have "task_of (c_nameOrFunction ?c) (heap ?sf (c_obj ?c)) = Fn f"
    by (simp add: shape hn f)
  note rc = run_debouncedTask_call [OF this, of "butlast (last argss)"]
  have 0: "\<forall>p. pending_entry obj k s = Some p \<longrightarrow> ?c = debouncedTask p"
    by (simp add: pending_task_def)
  have 1: "fst (fire tid sn) = None" unfolding fi by (rule rc(1))
  have 2: "calls (snd (fire tid sn))
             = calls s @ [\<lparr>callee = f, this_arg = obj, arguments = butlast (last argss)\<rparr>]"
    unfolding fi rc(2) by (simp add: cn shape)
  have 3: "timers_for obj k (snd (fire tid sn)) = []"
    by (simp add: timers_for_fire tn)
  from 0 pn tn f 1 2 3 show "\<exists>c tid f.
            (\<forall>p. pending_entry obj k s = Some p \<longrightarrow> c = debouncedTask p) \<and>
            pending_entry obj k sn = Some \<lparr>debouncedTask = c, cancelId = tid\<rparr> \<and>
            timers_for obj k sn
              = [\<lparr>t_id = tid, t_target = obj, t_method = c, t_args = butlast (last argss)\<rparr>] \<and>
            task_of k (heap s obj) = Fn f \<and>
            fst (fire tid sn) = None \<and>
            calls (snd (fire tid sn))
              = calls s @ [\<lparr>callee = f, this_arg = obj, arguments = butlast (last argss)\<rparr>] \<and>
            timers_for obj k (snd (fire tid sn)) = []"
    by blast
qed

theorem debounceTask_coalesces_witness:
  "valid_call 1 (Str ''logMe'') (run es0 (init h0 '''')) \<and>
   pending_entry 1 (Str ''logMe'') (run es0 (init h0 '''')) = Some p0 \<and>
   pending_entry 1 (Str ''logMe'')
       (snd (debounceTask 1 (Str ''logMe'') [Num 2, Num 300] (run es0 (init h0 ''''))))
     = Some \<lparr>debouncedTask = debouncedTask p0, cancelId = next_timer (run es0 (init h0 ''''))\<rparr> \<and>
   next_closure (snd (debounceTask 1 (Str ''logMe'') [Num 2, Num 300] (run es0 (init h0 ''''))))
     = next_closure (run es0 (init h0 '''')) \<and>
   (\<exists>tid.
      timers_for 1 (Str ''logMe'')
          (run (map (Schedule 1 (Str ''logMe'')) [[Num 2, Num 300], [Num 3, Num 300]])
             (run es0 (init h0 '''')))
        = [\<lparr>t_id = tid, t_target = 1, t_method = debouncedTask p0, t_args = [Num 3]\<rparr>] \<and>
      calls (snd (fire tid
          (run (map (Schedule 1 (Str ''logMe'')) [[Num 2, Num 300], [Num 3, Num 300]])
             (run es0 (init h0 '''')))))
        = [\<lparr>callee = 7, this_arg = 1, arguments = [Num 3]\<rparr>])"
proof -
  let ?s = "run es0 (init h0 '''')"
  let ?argss = "[[Num 2, Num 300], [Num 3, Num 300]]"
  have v: "valid_call 1 (Str ''logMe'') ?s"
    by (simp add: valid_call_def es0_def model_defs Let_def)
  have p: "pending_entry 1 (Str ''logMe'') ?s = Some p0"
    by (simp add: pending_entry_def p0_def es0_def model_defs Let_def)
  have f: "task_of (Str ''logMe'') (heap ?s 1) = Fn 7"
    by (simp add: task_of_def es0_def model_defs Let_def)
  have c: "calls ?s = []"
    by (simp add: es0_def model_defs Let_def)
  have n: "?argss \<noteq> []" by simp
  note t = debounceTask_coalesces [OF v n, where dargs = "[Num 2, Num 300]"]
  note t1 = t [THEN conjunct1, rule_format, OF p]
  note a = t1 [THEN conjunct2, THEN conjunct1]
  note b = t1 [THEN conjunct2, THEN conjunct2, THEN conjunct1]
  from t [THEN conjunct2] obtain c' tid f' where
    1: "\<forall>p. pending_entry 1 (Str ''logMe'') ?s = Some p \<longrightarrow> c' = debouncedTask p"
    and 2: "timers_for 1 (Str ''logMe'') (run (map (Schedule 1 (Str ''logMe'')) ?argss) ?s)
        = [\<lparr>t_id = tid, t_target = 1, t_method = c', t_args = butlast (last ?argss)\<rparr>]"
    and 3: "task_of (Str ''logMe'') (heap ?s 1) = Fn f'"
    and 4: "calls (snd (fire tid (run (map (Schedule 1 (Str ''logMe'')) ?argss) ?s)))
        = calls ?s @ [\<lparr>callee = f', this_arg = 1, arguments = butlast (last ?argss)\<rparr>]"
    by (elim exE conjE)
  from 1 [rule_format, OF p] have c': "c' = debouncedTask p0" .
  from 3 have f': "f' = 7" unfolding f by simp
  have l: "butlast (last ?argss) = [Num 3]" by simp
  have e0: "timers_for 1 (Str ''logMe'') (run (map (Schedule 1 (Str ''logMe'')) ?argss) ?s)
        = [\<lparr>t_id = tid, t_target = 1, t_method = debouncedTask p0, t_args = [Num 3]\<rparr>] \<and>
      calls (snd (fire tid (run (map (Schedule 1 (Str ''logMe'')) ?argss) ?s)))
        = [\<lparr>callee = 7, this_arg = 1, arguments = [Num 3]\<rparr>]"
    unfolding 2 4 c l c' f' by simp
  have e: "\<exists>tid. timers_for 1 (Str ''logMe'') (run (map (Schedule 1 (Str ''logMe'')) ?argss) ?s)
        = [\<lparr>t_id = tid, t_target = 1, t_method = debouncedTask p0, t_args = [Num 3]\<rparr>] \<and>
      calls (snd (fire tid (run (map (Schedule 1 (Str ''logMe'')) ?argss) ?s)))
        = [\<lparr>callee = 7, this_arg = 1, arguments = [Num 3]\<rparr>]"
    by (rule exI [where x = tid]) (fact e0)
  show ?thesis by (intro conjI v p a b e)
qed

section \<open>cancelDebounce on a Pending Debounce\<close>

text \<open>
  C3. In a reachable state where the owner and task identity have a Pending Debounce
  \<open>p\<close>, \<open>cancelDebounce\<close> returns normally, has the run loop drop the timer with the handle
  of \<open>p\<close>, and leaves no entry and no pending timer for the owner and task identity. A
  \<open>debounceTask\<close> for the same pair after it makes a new arrow function and stores it
  with the handle of a new timer: both are younger than those of \<open>p\<close>.
\<close>

theorem cancelDebounce_then_fresh:
  fixes es h g obj k dargs
  defines "s \<equiv> run es (init h g)"
  defines "s1 \<equiv> snd (cancelDebounce obj k s)"
  defines "s2 \<equiv> snd (debounceTask obj k dargs s1)"
  assumes p: "pending_entry obj k s = Some p" and v: "valid_call obj k s"
  shows "fst (cancelDebounce obj k s) = None \<and>
         timers s1 = filter (\<lambda>t. t_id t \<noteq> cancelId p) (timers s) \<and>
         pending_entry obj k s1 = None \<and> timers_for obj k s1 = [] \<and>
         fst (debounceTask obj k dargs s1) = None \<and>
         pending_entry obj k s2 =
           Some \<lparr>debouncedTask = \<lparr>c_id = next_closure s, c_pendingDebounces = pending_map obj s,
                                   c_nameOrFunction = k, c_obj = obj\<rparr>,
                 cancelId = next_timer s\<rparr> \<and>
         next_closure s2 = Suc (next_closure s) \<and>
         c_id (debouncedTask p) < next_closure s \<and> cancelId p < next_timer s"
proof -
  have w: "wf_state s" unfolding s_def by (rule wf_reachable)
  then have e: "entries_ok s" by (simp add: wf_state_def)
  from p obtain m where m: "registeredDebounces s obj = Some m"
    and g: "Map_get (map_store s m) k = Some p"
    by (auto simp: pending_entry_def split: option.splits)
  note c = cancelDebounce_present [OF m g]
  have 1: "fst (cancelDebounce obj k s) = None" by (simp add: c)
  have 2: "timers s1 = filter (\<lambda>t. t_id t \<noteq> cancelId p) (timers s)"
    by (simp add: s1_def c)
  have 3: "pending_entry obj k s1 = None"
    by (simp add: s1_def c pending_entry_def m Map_get_delete)
  have "filter (\<lambda>t. c_obj (t_method t) = obj \<and> c_nameOrFunction (t_method t) = k)
          (filter (\<lambda>t. t_id t \<noteq> cancelId p) (timers s)) = []"
    using timers_for_cancelId [OF w p] by (auto simp: filter_empty_conv)
  then have 4: "timers_for obj k s1 = []" by (simp add: timers_for_def 2)
  have v1: "valid_call obj k s1" using v by (simp add: valid_call_def s1_def c)
  have 5: "fst (debounceTask obj k dargs s1) = None" by (rule debounceTask_result [OF v1])
  have "pending_task obj k s1 = \<lparr>c_id = next_closure s, c_pendingDebounces = pending_map obj s,
                                  c_nameOrFunction = k, c_obj = obj\<rparr>"
    using 3 m by (simp add: pending_task_def pending_map_def s1_def c)
  then have 6: "pending_entry obj k s2 =
          Some \<lparr>debouncedTask = \<lparr>c_id = next_closure s, c_pendingDebounces = pending_map obj s,
                                  c_nameOrFunction = k, c_obj = obj\<rparr>,
                cancelId = next_timer s\<rparr>"
    unfolding s2_def by (simp add: pending_entry_debounceTask [OF v1]) (simp add: s1_def c)
  have 7: "next_closure s2 = Suc (next_closure s)"
    unfolding s2_def using 3 by (simp add: debounceTask_next_closure [OF v1]) (simp add: s1_def c)
  from entries_okD(2,3) [OF e g]
  have 8: "c_id (debouncedTask p) < next_closure s" "cancelId p < next_timer s" .
  from 1 2 3 4 5 6 7 8 show ?thesis by blast
qed

theorem cancelDebounce_then_fresh_witness:
  "pending_entry 1 (Str ''logMe'') (run es0 (init h0 '''')) = Some p0 \<and>
   valid_call 1 (Str ''logMe'') (run es0 (init h0 '''')) \<and>
   pending_entry 1 (Str ''logMe'') (snd (cancelDebounce 1 (Str ''logMe'') (run es0 (init h0 ''''))))
     = None \<and>
   timers (snd (cancelDebounce 1 (Str ''logMe'') (run es0 (init h0 ''''))))
     = filter (\<lambda>t. t_id t \<noteq> cancelId p0) (timers (run es0 (init h0 ''''))) \<and>
   pending_entry 1 (Str ''logMe'')
       (snd (debounceTask 1 (Str ''logMe'') [Num 2, Num 300]
          (snd (cancelDebounce 1 (Str ''logMe'') (run es0 (init h0 ''''))))))
     = Some \<lparr>debouncedTask = \<lparr>c_id = 1, c_pendingDebounces = 0,
                c_nameOrFunction = Str ''logMe'', c_obj = 1\<rparr>, cancelId = 1\<rparr>"
proof -
  let ?s = "run es0 (init h0 '''')"
  have v: "valid_call 1 (Str ''logMe'') ?s"
    by (simp add: valid_call_def es0_def model_defs Let_def)
  have p: "pending_entry 1 (Str ''logMe'') ?s = Some p0"
    by (simp add: pending_entry_def p0_def es0_def model_defs Let_def)
  have n: "next_closure ?s = 1" "next_timer ?s = 1" "pending_map 1 ?s = 0"
    by (simp_all add: pending_map_def es0_def model_defs Let_def)
  note t = cancelDebounce_then_fresh [OF p v, where dargs = "[Num 2, Num 300]"]
  from t have "pending_entry 1 (Str ''logMe'')
       (snd (cancelDebounce 1 (Str ''logMe'') ?s)) = None"
    and "timers (snd (cancelDebounce 1 (Str ''logMe'') ?s))
       = filter (\<lambda>t. t_id t \<noteq> cancelId p0) (timers ?s)"
    and "pending_entry 1 (Str ''logMe'')
       (snd (debounceTask 1 (Str ''logMe'') [Num 2, Num 300]
          (snd (cancelDebounce 1 (Str ''logMe'') ?s))))
     = Some \<lparr>debouncedTask = \<lparr>c_id = next_closure ?s, c_pendingDebounces = pending_map 1 ?s,
                c_nameOrFunction = Str ''logMe'', c_obj = 1\<rparr>, cancelId = next_timer ?s\<rparr>"
    by blast+
  with v p show ?thesis unfolding n by blast
qed

end
